theory Spec2Isabelle
  imports Main
begin

section \<open>Strings as Python sees them\<close>

text \<open>
  The plugin works on Python \<open>str\<close> values. They are modelled as \<open>string\<close>, a list of
  characters, each character one code point of the range 0 to 255. The two characters the
  escaping is about are the backslash and the double quote.
\<close>

abbreviation bs :: char where "bs \<equiv> CHR 0x5C"
abbreviation dq :: char where "dq \<equiv> CHR 0x22"

text \<open>
  \<open>str.isspace\<close>, \<open>str.strip()\<close> and the class \<open>\s\<close> of \<open>re\<close> agree on what a whitespace
  character is. In the modelled range these are TAB, LF, VT, FF, CR, the separators
  0x1C to 0x1F, the space, NEL (0x85) and the no-break space (0xA0).
\<close>

definition is_space :: "char \<Rightarrow> bool" where
  "is_space c = (c \<in> set [CHR 0x09, CHR 0x0A, CHR 0x0B, CHR 0x0C, CHR 0x0D,
                           CHR 0x1C, CHR 0x1D, CHR 0x1E, CHR 0x1F, CHR 0x20, CHR 0x85, CHR 0xA0])"

text \<open>\<open>s.strip()\<close>: whitespace removed at both ends.\<close>

definition strip :: "string \<Rightarrow> string" where
  "strip s = rev (dropWhile is_space (rev (dropWhile is_space s)))"

text \<open>
  \<open>s.replace(old, new)\<close>: the occurrences of \<open>old\<close> are found from left to right and do
  not overlap. With an empty \<open>old\<close> Python puts \<open>new\<close> before every character and at the end.
\<close>

function replace :: "string \<Rightarrow> string \<Rightarrow> string \<Rightarrow> string" where
  "replace old new s =
     (if old = [] then new @ concat (map (\<lambda>c. c # new) s)
      else if s = [] then []
      else if take (length old) s = old then new @ replace old new (drop (length old) s)
      else hd s # replace old new (tl s))"
  by pat_completeness auto
termination
  by (relation "measure (\<lambda>(old, new, s). length s)") (auto simp: neq_Nil_conv)

declare replace.simps [simp del]

section \<open>S-expression helpers\<close>

text \<open>
  \<open>_unescape\<close> and \<open>_escape\<close> (an Isabelle name cannot start with an underscore).
  \<open>_unescape\<close> first turns backslash-quote into a quote, then two backslashes into one;
  \<open>_escape\<close> first doubles every backslash, then puts a backslash before every quote.
\<close>

definition unescape :: "string \<Rightarrow> string" where
  "unescape s = replace [bs, bs] [bs] (replace [bs, dq] [dq] s)"

definition escape :: "string \<Rightarrow> string" where
  "escape s = replace [dq] [bs, dq] (replace [bs] [bs, bs] s)"

datatype py_error = AttributeError | IndexError

text \<open>
  \<open>class FieldItem\<close>: a name and the text that followed it. The constructor stores
  \<open>suffix or ""\<close>, which is the suffix itself for a \<open>str\<close>.
\<close>

record FieldItem =
  name :: string
  suffix :: string

definition FieldItem_init :: "string \<Rightarrow> string \<Rightarrow> FieldItem" where
  "FieldItem_init n suf = \<lparr>name = n, suffix = suf\<rparr>"

definition with_suffix_inside :: "FieldItem \<Rightarrow> string" where
  "with_suffix_inside it =
     (let suf = strip (suffix it);
          suf = (if suf \<noteq> [] then '' '' @ suf else [])
      in ''(field (name '' @ [dq] @ escape (name it) @ [dq] @ '')'' @ suf @ '')'')"

definition build_field_names_sexpr :: "FieldItem list \<Rightarrow> string" where
  "build_field_names_sexpr items =
     ''(templatefields'' @ concat (map with_suffix_inside items) @ '')''"

subsection \<open>The regular expression\<close>

text \<open>
  \<open>FIELD_RE\<close> is a pattern of Python's \<open>re\<close>, whose matcher backtracks: alternatives are
  tried from left to right, a star takes as many rounds as it can before it tries fewer, and
  the first way through the whole pattern is the match. The patterns below are the ones
  \<open>FIELD_RE\<close> is built from: one character (a literal, the dot under \<open>re.DOTALL\<close>, \<open>\s\<close>,
  a negated set), a literal string, sequence, alternative, greedy star, capturing group.
\<close>

datatype atom = Chr char | Dot | Space | NoneOf "char list"

fun atom_ok :: "atom \<Rightarrow> char \<Rightarrow> bool" where
  "atom_ok (Chr a) c = (c = a)"
| "atom_ok Dot c = True"
| "atom_ok Space c = is_space c"
| "atom_ok (NoneOf cs) c = (c \<notin> set cs)"

datatype regex = Atom atom | Lit string | Seq regex regex | Alt regex regex
  | Star regex | Group nat regex

definition Plus :: "regex \<Rightarrow> regex" where
  "Plus p = Seq p (Star p)"

type_synonym groups = "nat \<Rightarrow> string option"
type_synonym mstate = "groups \<times> string"

text \<open>
  \<open>ms p (g, s)\<close> lists, in the order the backtracking matcher finds them, the ways \<open>p\<close>
  matches at the start of \<open>s\<close>: each is the text left after the match together with the
  groups captured so far. A round of a star that consumes nothing is not repeated.
\<close>

function ms :: "regex \<Rightarrow> mstate \<Rightarrow> mstate list" where
  "ms (Atom a) (g, s) = (case s of [] \<Rightarrow> [] | c # t \<Rightarrow> if atom_ok a c then [(g, t)] else [])"
| "ms (Lit w) (g, s) = (if take (length w) s = w then [(g, drop (length w) s)] else [])"
| "ms (Seq p q) (g, s) = concat (map (ms q) (ms p (g, s)))"
| "ms (Alt p q) (g, s) = ms p (g, s) @ ms q (g, s)"
| "ms (Star p) (g, s) =
     concat (map (ms (Star p)) (filter (\<lambda>(g', t). length t < length s) (ms p (g, s))))
     @ [(g, s)]"
| "ms (Group n p) (g, s) =
     map (\<lambda>(g', t). (g'(n \<mapsto> take (length s - length t) s), t)) (ms p (g, s))"
  by pat_completeness auto
termination
  by (relation "measures [\<lambda>(p, g, s). size p, \<lambda>(p, g, s). length s]") auto

text \<open>
  \<open>p.finditer(s)\<close>: the leftmost match is searched from the current position, its groups
  are yielded, and the search goes on where the match ended. (Where a match is empty the
  search moves on by one character; \<open>FIELD_RE\<close> has no empty match.)
\<close>

function finditer :: "regex \<Rightarrow> string \<Rightarrow> groups list" where
  "finditer p s =
     (case ms p (Map.empty, s) of
        [] \<Rightarrow> (case s of [] \<Rightarrow> [] | c # s' \<Rightarrow> finditer p s')
      | (g, t) # other \<Rightarrow>
          g # (if length t < length s then finditer p t
               else (case s of [] \<Rightarrow> [] | c # s' \<Rightarrow> finditer p s')))"
  by pat_completeness auto
termination
  by (relation "measure (\<lambda>(p, s). length s)") auto

declare finditer.simps [simp del]

lemmas ms_Star = ms.simps(5)
declare ms.simps(5) [simp del]

text \<open>
  \<^verbatim>\<open>\(field\s+\(name\s+"((?:[^"\\]|\\.)*)"\)\s*([^\)]*)\)\<close> compiled with \<open>re.DOTALL\<close>.
\<close>

definition FIELD_RE :: regex where
  "FIELD_RE =
     Seq (Lit ''(field'') (Seq (Plus (Atom Space)) (Seq (Lit ''(name'') (Seq (Plus (Atom Space))
     (Seq (Lit [dq])
     (Seq (Group 1 (Star (Alt (Atom (NoneOf [dq, bs])) (Seq (Atom (Chr bs)) (Atom Dot)))))
     (Seq (Lit [dq, CHR '')''])
     (Seq (Star (Atom Space))
     (Seq (Group 2 (Star (Atom (NoneOf '')''))))
          (Lit '')'')))))))))"

text \<open>
  The loop of \<open>parse_field_names_sexpr\<close> over the matches. \<open>_unescape(m.group(1))\<close> raises
  \<open>AttributeError\<close> if group 1 is \<open>None\<close>; \<open>m.group(2) or ""\<close> turns \<open>None\<close> into the
  empty string.
\<close>

fun collect :: "groups list \<Rightarrow> py_error + FieldItem list" where
  "collect [] = Inr []"
| "collect (m # rest) =
     (case m 1 of
        None \<Rightarrow> Inl AttributeError
      | Some raw \<Rightarrow>
          (case collect rest of
             Inl e \<Rightarrow> Inl e
           | Inr items \<Rightarrow>
               Inr (FieldItem_init (unescape raw) (case m 2 of None \<Rightarrow> [] | Some t \<Rightarrow> t)
                    # items)))"

text \<open>The argument is \<open>None\<close> or a \<open>str\<close>; \<open>sexpr or ""\<close> reads \<open>None\<close> as the empty text.\<close>

definition parse_field_names_sexpr :: "string option \<Rightarrow> py_error + FieldItem list" where
  "parse_field_names_sexpr sexpr =
     collect (finditer FIELD_RE (case sexpr of None \<Rightarrow> [] | Some s \<Rightarrow> s))"

text \<open>
  \<open>parse(serialize(parse(x)))\<close>: the text is parsed, the records are written back and the
  result is parsed again.
\<close>

definition reparse :: "string option \<Rightarrow> py_error + FieldItem list" where
  "reparse x = (case parse_field_names_sexpr x of
                  Inl e \<Rightarrow> Inl e
                | Inr items \<Rightarrow> parse_field_names_sexpr (Some (build_field_names_sexpr items)))"

section \<open>The dialog's list operations\<close>

text \<open>
  \<open>self.lb.GetSelection()\<close> gives the selected index, or \<open>wx.NOT_FOUND\<close> when nothing is
  selected. The index is a Python \<open>int\<close>; reading or writing a list at an index counts a
  negative index from the end and raises \<open>IndexError\<close> outside the list.
\<close>

definition NOT_FOUND :: int where "NOT_FOUND = -1"

definition py_index :: "nat \<Rightarrow> int \<Rightarrow> nat option" where
  "py_index len i =
     (if 0 \<le> i \<and> i < int len then Some (nat i)
      else if - int len \<le> i \<and> i < 0 then Some (nat (i + int len))
      else None)"

definition py_get :: "'a list \<Rightarrow> int \<Rightarrow> py_error + 'a" where
  "py_get xs i =
     (case py_index (length xs) i of None \<Rightarrow> Inl IndexError | Some j \<Rightarrow> Inr (xs ! j))"

definition py_set :: "'a list \<Rightarrow> int \<Rightarrow> 'a \<Rightarrow> py_error + 'a list" where
  "py_set xs i v =
     (case py_index (length xs) i of None \<Rightarrow> Inl IndexError | Some j \<Rightarrow> Inr (xs[j := v]))"

text \<open>A statement that raises ends the handler; otherwise the handler goes on with its value.\<close>

definition and_then :: "py_error + 'a \<Rightarrow> ('a \<Rightarrow> py_error + 'b) \<Rightarrow> py_error + 'b" where
  "and_then r f = (case r of Inl e \<Rightarrow> Inl e | Inr v \<Rightarrow> f v)"

text \<open>
  \<open>_move_up\<close> and \<open>_move_down\<close>, with the selection \<open>i\<close> as argument. The swap
  \<open>items[i-1], items[i] = items[i], items[i-1]\<close> reads the right-hand side first, then
  assigns from left to right.
\<close>

definition move_up :: "int \<Rightarrow> FieldItem list \<Rightarrow> py_error + FieldItem list" where
  "move_up i items =
     (if i = NOT_FOUND \<or> i = 0 then Inr items
      else and_then (py_get items i) (\<lambda>a.
           and_then (py_get items (i - 1)) (\<lambda>b.
           and_then (py_set items (i - 1) a) (\<lambda>items'.
           py_set items' i b))))"

definition move_down :: "int \<Rightarrow> FieldItem list \<Rightarrow> py_error + FieldItem list" where
  "move_down i items =
     (if i = NOT_FOUND \<or> i \<ge> int (length items) - 1 then Inr items
      else and_then (py_get items i) (\<lambda>a.
           and_then (py_get items (i + 1)) (\<lambda>b.
           and_then (py_set items (i + 1) a) (\<lambda>items'.
           py_set items' i b))))"

text \<open>
  What \<open>self.lb.GetSelection()\<close> can give: the list box holds one line per item (every
  change of \<open>self.items\<close> is followed by \<open>refresh\<close>), so the selection is
  \<open>wx.NOT_FOUND\<close> or the index of an item.
\<close>

definition lb_selection :: "int \<Rightarrow> FieldItem list \<Rightarrow> bool" where
  "lb_selection i items = (i = NOT_FOUND \<or> (0 \<le> i \<and> i < int (length items)))"

text \<open>
  \<open>on_add\<close>: the dialog is cancelled (\<open>None\<close>) or gives the entered text. The text is
  stripped, and \<open>insert_name\<close> is the guarded append on the stripped \<open>name\<close>.
\<close>

definition insert_name :: "string \<Rightarrow> FieldItem list \<Rightarrow> FieldItem list" where
  "insert_name nm items =
     (if nm \<noteq> [] \<and> list_all (\<lambda>it. name it \<noteq> nm) items
      then items @ [FieldItem_init nm []] else items)"

definition on_add :: "string option \<Rightarrow> FieldItem list \<Rightarrow> FieldItem list" where
  "on_add dlg items = (case dlg of None \<Rightarrow> items | Some v \<Rightarrow> insert_name (strip v) items)"

text \<open>
  \<open>on_import\<close> reads a JSON document. \<open>data.get("fields")\<close> needs a dictionary (anything
  else has no \<open>get\<close>: \<open>AttributeError\<close>); of a key given twice \<open>json.load\<close> keeps
  the last value. Numbers are kept as integers here: the handler only asks whether a value
  is a string or a list. \<open>reorder\<close> is the body run when \<open>names\<close> is a list: the dictionary
  of the current suffixes, the loop over the names with the set \<open>seen\<close>, and the loop over
  the current items.
\<close>

datatype json = JNull | JBool bool | JNum int | JStr string | JList "json list"
  | JDict "(string \<times> json) list"

definition suffix_map :: "FieldItem list \<Rightarrow> string \<rightharpoonup> string" where
  "suffix_map items = fold (\<lambda>it m. m(name it \<mapsto> suffix it)) items Map.empty"

definition reorder :: "json list \<Rightarrow> FieldItem list \<Rightarrow> FieldItem list" where
  "reorder names items =
     (let smap = suffix_map items;
          (new_items, seen) =
             fold (\<lambda>n (acc, seen).
                     case n of
                       JStr s \<Rightarrow>
                         if s \<notin> seen
                         then (acc @ [FieldItem_init s (case smap s of None \<Rightarrow> [] | Some t \<Rightarrow> t)],
                               insert s seen)
                         else (acc, seen)
                     | _ \<Rightarrow> (acc, seen))
                  names ([], {})
      in fold (\<lambda>it acc. if name it \<notin> seen then acc @ [it] else acc) items new_items)"

definition on_import :: "json \<Rightarrow> FieldItem list \<Rightarrow> py_error + FieldItem list" where
  "on_import data items =
     (case data of
        JDict kvs \<Rightarrow>
          (case map_of (rev kvs) ''fields'' of
             Some (JList names) \<Rightarrow> Inr (reorder names items)
           | _ \<Rightarrow> Inr items)
      | _ \<Rightarrow> Inl AttributeError)"

section \<open>Notions used to state the properties\<close>

text \<open>The escaped form of one character, and a record with its tail stripped.\<close>

definition esc_char :: "char \<Rightarrow> string" where
  "esc_char c = (if c = bs then [bs, bs] else if c = dq then [bs, dq] else [c])"

definition normalized :: "FieldItem \<Rightarrow> FieldItem" where
  "normalized it = \<lparr>name = name it, suffix = strip (suffix it)\<rparr>"

text \<open>The first way the matcher finds, if there is one: the match \<open>finditer\<close> reports.\<close>

definition first :: "regex \<Rightarrow> mstate \<Rightarrow> mstate option" where
  "first p st = (case ms p st of [] \<Rightarrow> None | x # other \<Rightarrow> Some x)"

text \<open>The inner pattern of the quoted name, and the groups of one match.\<close>

abbreviation NAME_UNIT :: regex where
  "NAME_UNIT \<equiv> Alt (Atom (NoneOf [dq, bs])) (Seq (Atom (Chr bs)) (Atom Dot))"

definition groups_of :: "string \<Rightarrow> string \<Rightarrow> groups" where
  "groups_of raw tail = [1 \<mapsto> raw, 2 \<mapsto> tail]"

text \<open>
  A well-formed record, in the words of the specification: the record delimiter, a \<open>name\<close>
  sub-field whose value is a double-quoted string in which a backslash escapes the next
  character, then text without a closing delimiter up to the closing delimiter. Whitespace
  separates the parts.
\<close>

inductive escaped_name :: "string \<Rightarrow> bool" where
  en_Nil: "escaped_name []"
| en_plain: "c \<noteq> dq \<Longrightarrow> c \<noteq> bs \<Longrightarrow> escaped_name r \<Longrightarrow> escaped_name (c # r)"
| en_pair: "escaped_name r \<Longrightarrow> escaped_name (bs # c # r)"

definition well_formed_record :: "string \<Rightarrow> bool" where
  "well_formed_record w =
     (\<exists>ws1 ws2 raw ws3 tail.
        w = ''(field'' @ ws1 @ ''(name'' @ ws2 @ [dq] @ raw @ [dq] @ '')'' @ ws3 @ tail @ '')''
        \<and> ws1 \<noteq> [] \<and> list_all is_space ws1
        \<and> ws2 \<noteq> [] \<and> list_all is_space ws2
        \<and> escaped_name raw
        \<and> list_all is_space ws3
        \<and> CHR '')'' \<notin> set tail)"

text \<open>
  The strings among the imported values, the names without later repetitions, and the tail
  a name has in the current sequence (with a name held twice, the last one's, as the
  dictionary of the suffixes keeps it).
\<close>

fun json_strs :: "json list \<Rightarrow> string list" where
  "json_strs [] = []"
| "json_strs (JStr s # ns) = s # json_strs ns"
| "json_strs (n # ns) = json_strs ns"

fun uniq :: "string list \<Rightarrow> string list" where
  "uniq [] = []"
| "uniq (x # xs) = x # uniq (removeAll x xs)"

definition tail_of :: "FieldItem list \<Rightarrow> string \<Rightarrow> string" where
  "tail_of items n =
     (case filter (\<lambda>it. name it = n) items of [] \<Rightarrow> [] | x # xs \<Rightarrow> suffix (last (x # xs)))"

section \<open>Lemmas on escaping\<close>

lemma replace_Nil [simp]: "old \<noteq> [] \<Longrightarrow> replace old new [] = []"
  by (simp add: replace.simps)

lemma replace_single: "replace [a] new s = concat (map (\<lambda>c. if c = a then new else [c]) s)"
proof (induction s)
  case Nil
  show ?case by simp
next
  case (Cons c cs)
  then show ?case by (subst replace.simps) simp
qed

lemma escape_concat: "escape s = concat (map esc_char s)"
  unfolding escape_def replace_single
  by (induction s) (simp_all add: esc_char_def)

lemma esc_char_simps:
  "esc_char bs = [bs, bs]" "esc_char dq = [bs, dq]"
  "c \<noteq> bs \<Longrightarrow> c \<noteq> dq \<Longrightarrow> esc_char c = [c]"
  by (simp_all add: esc_char_def)

lemma esc_not_dq_first: "take (Suc 0) (concat (map esc_char s)) \<noteq> [dq]"
  by (induction s) (simp_all add: esc_char_def)

lemma unquote_escaped:
  "replace [bs, dq] [dq] (concat (map esc_char s))
   = concat (map (\<lambda>c. if c = bs then [bs, bs] else [c]) s)"
proof (induction s)
  case Nil
  show ?case by simp
next
  case (Cons c cs)
  let ?r = "concat (map esc_char cs)"
  have nodq: "take (Suc 0) ?r \<noteq> [dq]"
    by (rule esc_not_dq_first)
  show ?case
  proof (cases "c = bs")
    case True
    have "replace [bs, dq] [dq] (bs # bs # ?r) = bs # replace [bs, dq] [dq] (bs # ?r)"
      by (subst replace.simps) simp
    also have "replace [bs, dq] [dq] (bs # ?r) = bs # replace [bs, dq] [dq] ?r"
      using nodq by (subst replace.simps) simp
    finally show ?thesis using True Cons.IH by (simp add: esc_char_simps)
  next
    case False
    show ?thesis
    proof (cases "c = dq")
      case True
      have "replace [bs, dq] [dq] (bs # dq # ?r) = dq # replace [bs, dq] [dq] ?r"
        by (subst replace.simps) simp
      then show ?thesis using True Cons.IH by (simp add: esc_char_simps)
    next
      case cdq: False
      have "replace [bs, dq] [dq] (c # ?r) = c # replace [bs, dq] [dq] ?r"
        using False by (subst replace.simps) simp
      then show ?thesis using False cdq Cons.IH by (simp add: esc_char_simps)
    qed
  qed
qed

lemma unslash_doubled:
  "replace [bs, bs] [bs] (concat (map (\<lambda>c. if c = bs then [bs, bs] else [c]) s)) = s"
proof (induction s)
  case Nil
  show ?case by simp
next
  case (Cons c cs)
  show ?case
  proof (cases "c = bs")
    case True
    then show ?thesis using Cons.IH by (subst replace.simps) simp
  next
    case False
    then show ?thesis using Cons.IH by (subst replace.simps) simp
  qed
qed

lemma unescape_escape_id: "unescape (escape s) = s"
  by (simp add: unescape_def escape_concat unquote_escaped unslash_doubled)

section \<open>Lemmas on stripping\<close>

lemma strip_subset: "set (strip s) \<subseteq> set s"
proof -
  have "set (strip s) \<subseteq> set (dropWhile is_space s)"
    unfolding strip_def using set_dropWhileD by fastforce
  also have "\<dots> \<subseteq> set s" using set_dropWhileD by fastforce
  finally show ?thesis .
qed

lemma strip_Cons: "strip s = c # t \<Longrightarrow> \<not> is_space c"
proof -
  assume a: "strip s = c # t"
  show "\<not> is_space c"
  proof (cases "dropWhile is_space s")
    case Nil
    have "strip s = []" unfolding strip_def Nil by simp
    with a show ?thesis by simp
  next
    case (Cons x d)
    have "dropWhile is_space s \<noteq> []" unfolding Cons by simp
    from hd_dropWhile [OF this] have nx: "\<not> is_space x" unfolding Cons by simp
    have "strip s = x # rev (dropWhile is_space (rev d))"
      unfolding strip_def Cons using nx by (simp add: dropWhile_append3)
    then show ?thesis using a nx by simp
  qed
qed

lemma dropWhile_strip: "dropWhile is_space (strip s @ r) = strip s @ r" if "strip s \<noteq> []"
proof (cases "strip s")
  case Nil
  then show ?thesis using that by simp
next
  case (Cons c t)
  then show ?thesis using strip_Cons [OF Cons] by simp
qed

lemma strip_strip: "strip (strip s) = strip s"
proof -
  have a: "dropWhile is_space (strip s) = strip s"
    using dropWhile_strip [of s "[]"] by (cases "strip s = []") simp_all
  have "rev (strip s) = dropWhile is_space (rev (dropWhile is_space s))"
    by (simp add: strip_def)
  then have "dropWhile is_space (rev (strip s)) = rev (strip s)"
    by (simp add: dropWhile_idem)
  then have "rev (dropWhile is_space (rev (dropWhile is_space (strip s)))) = strip s"
    unfolding a by simp
  then show ?thesis unfolding strip_def [of "strip s"] .
qed





lemma with_suffix_inside_nonempty: "with_suffix_inside it \<noteq> []"
  by (simp add: with_suffix_inside_def Let_def)

section \<open>The first match on a serialized record\<close>

lemma first_Seq:
  "first p st = Some x \<Longrightarrow> first q x = Some y \<Longrightarrow> first (Seq p q) st = Some y"
  by (cases st) (auto simp: first_def split: list.splits)

lemma first_Lit: "first (Lit w) (g, w @ s) = Some (g, s)"
  by (simp add: first_def)

lemma first_Atom: "atom_ok a c \<Longrightarrow> first (Atom a) (g, c # s) = Some (g, s)"
  by (simp add: first_def)

lemma first_Group:
  "first p (g, s) = Some (g', t) \<Longrightarrow>
   first (Group n p) (g, s) = Some (g'(n \<mapsto> take (length s - length t) s), t)"
  by (auto simp: first_def split: list.splits)

lemma first_Star_stop: "ms p (g, s) = [] \<Longrightarrow> first (Star p) (g, s) = Some (g, s)"
  by (simp add: first_def ms_Star)

lemma first_Star_round:
  "first p (g, s) = Some (g', t) \<Longrightarrow> length t < length s \<Longrightarrow>
   first (Star p) (g', t) = Some y \<Longrightarrow> first (Star p) (g, s) = Some y"
  unfolding first_def by (subst ms_Star) (auto split: list.splits)

lemma first_Star_Atom:
  "first (Star (Atom a)) (g, s) = Some (g, dropWhile (atom_ok a) s)"
proof (induction s)
  case Nil
  show ?case by (simp add: first_def ms_Star)
next
  case (Cons c s)
  show ?case
  proof (cases "atom_ok a c")
    case True
    have "first (Atom a) (g, c # s) = Some (g, s)" using True by (rule first_Atom)
    from first_Star_round [OF this _ Cons] True show ?thesis by simp
  next
    case False
    then have "ms (Atom a) (g, c # s) = []" by simp
    from first_Star_stop [OF this] False show ?thesis by simp
  qed
qed

lemma finditer_first:
  "first p (Map.empty, s) = Some (g, t) \<Longrightarrow> length t < length s \<Longrightarrow>
   finditer p s = g # finditer p t"
  by (subst finditer.simps) (auto simp: first_def split: list.splits)

lemma finditer_none:
  "ms p (Map.empty, c # s) = [] \<Longrightarrow> finditer p (c # s) = finditer p s"
  by (subst finditer.simps) simp

lemma first_name_star:
  "first (Star NAME_UNIT) (g, concat (map esc_char n) @ dq # r) = Some (g, dq # r)"
proof (induction n)
  case Nil
  have "ms NAME_UNIT (g, dq # r) = []" by simp
  from first_Star_stop [OF this] show ?case by simp
next
  case (Cons c n)
  let ?rest = "concat (map esc_char n) @ dq # r"
  have unit: "first NAME_UNIT (g, esc_char c @ ?rest) = Some (g, ?rest)"
    by (simp add: first_def esc_char_def)
  have "length ?rest < length (esc_char c @ ?rest)"
    by (simp add: esc_char_def)
  from first_Star_round [OF unit this Cons] show ?case by simp
qed

lemma atom_ok_Space: "atom_ok Space = is_space"
  by (rule ext) simp

lemma first_Plus_Space:
  "\<not> is_space c \<Longrightarrow> first (Plus (Atom Space)) (g, CHR '' '' # c # s) = Some (g, c # s)"
proof -
  assume c: "\<not> is_space c"
  have a: "first (Atom Space) (g, CHR '' '' # c # s) = Some (g, c # s)"
    by (rule first_Atom) (simp add: is_space_def)
  have b: "first (Star (Atom Space)) (g, c # s) = Some (g, c # s)"
    using first_Star_Atom [of Space g "c # s"] c by simp
  show ?thesis unfolding Plus_def by (rule first_Seq [OF a b])
qed

lemma first_record:
  assumes "CHR '')'' \<notin> set (suffix it)"
  shows "first FIELD_RE (g, with_suffix_inside it @ rest)
         = Some (g(1 \<mapsto> escape (name it), 2 \<mapsto> strip (suffix it)), rest)"
proof -
  let ?t = "strip (suffix it)"
  let ?suf = "if ?t \<noteq> [] then '' '' @ ?t else []"
  let ?g1 = "g(1 \<mapsto> escape (name it))"
  let ?g2 = "?g1(2 \<mapsto> ?t)"
  let ?s9 = "'')'' @ rest"
  let ?s8 = "?t @ ?s9"
  let ?s7 = "?suf @ ?s9"
  let ?s6 = "[dq, CHR '')''] @ ?s7"
  let ?s5 = "escape (name it) @ ?s6"
  let ?s4 = "[dq] @ ?s5"
  let ?s3 = "'' '' @ ?s4"
  let ?s2 = "''(name'' @ ?s3"
  let ?s1 = "'' '' @ ?s2"
  let ?s0 = "''(field'' @ ?s1"
  have s0: "with_suffix_inside it @ rest = ?s0"
    by (simp add: with_suffix_inside_def Let_def)
  have nop: "CHR '')'' \<notin> set ?t" using assms strip_subset by blast
  have h10: "first (Lit '')'') (?g2, ?s9) = Some (?g2, rest)" by (rule first_Lit)
  have "dropWhile (atom_ok (NoneOf '')'')) ?s8 = dropWhile (atom_ok (NoneOf '')'')) ?s9"
    by (rule dropWhile_append2) (use nop in auto)
  then have "dropWhile (atom_ok (NoneOf '')'')) ?s8 = ?s9" by simp
  then have "first (Star (Atom (NoneOf '')''))) (?g1, ?s8) = Some (?g1, ?s9)"
    using first_Star_Atom [of "NoneOf '')''" ?g1 ?s8] by simp
  from first_Group [OF this, of 2]
  have h9: "first (Group 2 (Star (Atom (NoneOf '')'')))) (?g1, ?s8) = Some (?g2, ?s9)"
    by simp
  have "dropWhile is_space ?s7 = ?s8"
    using dropWhile_strip [of "suffix it" ?s9] by (simp add: is_space_def)
  then have h8: "first (Star (Atom Space)) (?g1, ?s7) = Some (?g1, ?s8)"
    using first_Star_Atom [of Space ?g1 ?s7] by (simp only: atom_ok_Space)
  have h7: "first (Lit [dq, CHR '')'']) (?g1, ?s6) = Some (?g1, ?s7)" by (rule first_Lit)
  have "first (Star NAME_UNIT) (g, ?s5) = Some (g, ?s6)"
    using first_name_star [of g "name it" "CHR '')'' # ?s7"] by (simp add: escape_concat)
  from first_Group [OF this, of 1]
  have h6: "first (Group 1 (Star NAME_UNIT)) (g, ?s5) = Some (?g1, ?s6)" by simp
  have h5: "first (Lit [dq]) (g, ?s4) = Some (g, ?s5)" by (rule first_Lit)
  have h4: "first (Plus (Atom Space)) (g, ?s3) = Some (g, ?s4)"
    using first_Plus_Space [of dq g ?s5] by (simp add: is_space_def)
  have h3: "first (Lit ''(name'') (g, ?s2) = Some (g, ?s3)" by (rule first_Lit)
  have h2: "first (Plus (Atom Space)) (g, ?s1) = Some (g, ?s2)"
    using first_Plus_Space [of "CHR ''(''" g "''name'' @ ?s3"] by (simp add: is_space_def)
  have h1: "first (Lit ''(field'') (g, ?s0) = Some (g, ?s1)" by (rule first_Lit)
  have "first FIELD_RE (g, ?s0) = Some (?g2, rest)"
    unfolding FIELD_RE_def
    by (rule first_Seq [OF h1 first_Seq [OF h2 first_Seq [OF h3 first_Seq [OF h4
          first_Seq [OF h5 first_Seq [OF h6 first_Seq [OF h7 first_Seq [OF h8
          first_Seq [OF h9 h10]]]]]]]]])
  then show ?thesis unfolding s0 .
qed

section \<open>All matches of the pattern\<close>

lemma in_Seq: "(y \<in> set (ms (Seq p q) st)) = (\<exists>x \<in> set (ms p st). y \<in> set (ms q x))"
  by (cases st) auto

lemma in_Lit: "(y \<in> set (ms (Lit w) (g, s))) = (\<exists>t. y = (g, t) \<and> s = w @ t)"
proof
  assume "y \<in> set (ms (Lit w) (g, s))"
  then have "take (length w) s = w" and "y = (g, drop (length w) s)"
    by (auto split: if_splits)
  then have "y = (g, drop (length w) s) \<and> s = w @ drop (length w) s"
    by (metis append_take_drop_id)
  then show "\<exists>t. y = (g, t) \<and> s = w @ t" by blast
next
  assume "\<exists>t. y = (g, t) \<and> s = w @ t"
  then show "y \<in> set (ms (Lit w) (g, s))" by auto
qed

lemma in_Star_Atom:
  "(y \<in> set (ms (Star (Atom a)) (g, s)))
   = (\<exists>w t. y = (g, t) \<and> s = w @ t \<and> list_all (atom_ok a) w)"
proof (induction s)
  case Nil
  show ?case by (simp add: ms_Star)
next
  case (Cons c s)
  show ?case
  proof (cases "atom_ok a c")
    case True
    have ms: "ms (Star (Atom a)) (g, c # s) = ms (Star (Atom a)) (g, s) @ [(g, c # s)]"
      using True by (simp add: ms_Star)
    show ?thesis
    proof
      assume "y \<in> set (ms (Star (Atom a)) (g, c # s))"
      then consider "y \<in> set (ms (Star (Atom a)) (g, s))" | "y = (g, c # s)"
        unfolding ms by auto
      then show "\<exists>w t. y = (g, t) \<and> c # s = w @ t \<and> list_all (atom_ok a) w"
      proof cases
        case 1
        then obtain w t where "y = (g, t)" "s = w @ t" "list_all (atom_ok a) w"
          using Cons by blast
        then have "y = (g, t) \<and> c # s = (c # w) @ t \<and> list_all (atom_ok a) (c # w)"
          using True by simp
        then show ?thesis by blast
      next
        case 2
        then have "y = (g, c # s) \<and> c # s = [] @ (c # s) \<and> list_all (atom_ok a) []"
          by simp
        then show ?thesis by blast
      qed
    next
      assume "\<exists>w t. y = (g, t) \<and> c # s = w @ t \<and> list_all (atom_ok a) w"
      then obtain w t where wt: "y = (g, t)" "c # s = w @ t" "list_all (atom_ok a) w"
        by blast
      show "y \<in> set (ms (Star (Atom a)) (g, c # s))"
      proof (cases w)
        case Nil
        then show ?thesis using wt unfolding ms by simp
      next
        case (Cons c' w')
        then have "s = w' @ t" "list_all (atom_ok a) w'" using wt by auto
        then have "y \<in> set (ms (Star (Atom a)) (g, s))"
          using wt(1) Cons.IH by blast
        then show ?thesis unfolding ms by simp
      qed
    qed
  next
    case False
    have ms: "ms (Star (Atom a)) (g, c # s) = [(g, c # s)]"
      using False by (simp add: ms_Star)
    show ?thesis
    proof
      assume "y \<in> set (ms (Star (Atom a)) (g, c # s))"
      then have "y = (g, c # s) \<and> c # s = [] @ (c # s) \<and> list_all (atom_ok a) []"
        unfolding ms by simp
      then show "\<exists>w t. y = (g, t) \<and> c # s = w @ t \<and> list_all (atom_ok a) w" by blast
    next
      assume "\<exists>w t. y = (g, t) \<and> c # s = w @ t \<and> list_all (atom_ok a) w"
      then obtain w t where wt: "y = (g, t)" "c # s = w @ t" "list_all (atom_ok a) w"
        by blast
      have "w = []" using wt False by (cases w) auto
      then show "y \<in> set (ms (Star (Atom a)) (g, c # s))" using wt unfolding ms by simp
    qed
  qed
qed

lemma in_Plus_Atom:
  "(y \<in> set (ms (Plus (Atom a)) (g, s)))
   = (\<exists>w t. y = (g, t) \<and> s = w @ t \<and> w \<noteq> [] \<and> list_all (atom_ok a) w)"
proof
  assume "y \<in> set (ms (Plus (Atom a)) (g, s))"
  then obtain x where x: "x \<in> set (ms (Atom a) (g, s))" and y: "y \<in> set (ms (Star (Atom a)) x)"
    unfolding Plus_def in_Seq by blast
  from x obtain c s' where s: "s = c # s'" "atom_ok a c" "x = (g, s')"
    by (auto split: list.splits if_splits)
  from y obtain w t where "y = (g, t)" "s' = w @ t" "list_all (atom_ok a) w"
    unfolding s in_Star_Atom by blast
  then have "y = (g, t) \<and> s = (c # w) @ t \<and> c # w \<noteq> [] \<and> list_all (atom_ok a) (c # w)"
    using s by simp
  then show "\<exists>w t. y = (g, t) \<and> s = w @ t \<and> w \<noteq> [] \<and> list_all (atom_ok a) w" by blast
next
  assume "\<exists>w t. y = (g, t) \<and> s = w @ t \<and> w \<noteq> [] \<and> list_all (atom_ok a) w"
  then obtain w t where wt: "y = (g, t)" "s = w @ t" "w \<noteq> []" "list_all (atom_ok a) w"
    by blast
  then obtain c w' where w: "w = c # w'" by (cases w) auto
  have "(g, w' @ t) \<in> set (ms (Atom a) (g, s))" using wt w by simp
  moreover have "y \<in> set (ms (Star (Atom a)) (g, w' @ t))"
    unfolding in_Star_Atom using wt w by auto
  ultimately show "y \<in> set (ms (Plus (Atom a)) (g, s))"
    unfolding Plus_def in_Seq by blast
qed

lemma ms_name_Nil: "ms (Star NAME_UNIT) (g, []) = [(g, [])]"
  by (subst ms_Star) simp

lemma ms_name_dq: "ms (Star NAME_UNIT) (g, dq # s) = [(g, dq # s)]"
  by (subst ms_Star) simp

lemma ms_name_bs1: "ms (Star NAME_UNIT) (g, [bs]) = [(g, [bs])]"
  by (subst ms_Star) simp

lemma ms_name_bs2:
  "ms (Star NAME_UNIT) (g, bs # c # s) = ms (Star NAME_UNIT) (g, s) @ [(g, bs # c # s)]"
  by (subst ms_Star) simp

lemma ms_name_plain:
  "c \<noteq> dq \<Longrightarrow> c \<noteq> bs \<Longrightarrow>
   ms (Star NAME_UNIT) (g, c # s) = ms (Star NAME_UNIT) (g, s) @ [(g, c # s)]"
  by (subst ms_Star) simp

lemma star_self: "(g, s) \<in> set (ms (Star p) (g, s))"
  by (subst ms_Star) simp

lemma name_star_complete:
  "escaped_name w \<Longrightarrow> (g, t) \<in> set (ms (Star NAME_UNIT) (g, w @ t))"
proof (induction w rule: escaped_name.induct)
  case en_Nil
  show ?case by (simp add: star_self)
next
  case (en_plain c r)
  then show ?case by (simp add: ms_name_plain)
next
  case (en_pair r c)
  then show ?case by (simp add: ms_name_bs2)
qed

lemma name_star_sound:
  "y \<in> set (ms (Star NAME_UNIT) (g, s)) \<Longrightarrow> \<exists>w t. y = (g, t) \<and> s = w @ t \<and> escaped_name w"
proof (induction s arbitrary: y rule: length_induct)
  case (1 s)
  have here: "\<exists>w t. (g, s) = (g, t) \<and> s = w @ t \<and> escaped_name w"
    using en_Nil by (metis append_Nil)
  show ?case
  proof (cases s)
    case Nil
    then show ?thesis using 1(2) here by (simp add: ms_name_Nil)
  next
    case (Cons c s1)
    show ?thesis
    proof (cases "c = dq")
      case True
      then show ?thesis using 1(2) here Cons by (simp add: ms_name_dq)
    next
      case ndq: False
      show ?thesis
      proof (cases "c = bs")
        case False
        from 1(2) consider "y \<in> set (ms (Star NAME_UNIT) (g, s1))" | "y = (g, s)"
          unfolding Cons using ndq False by (auto simp: ms_name_plain)
        then show ?thesis
        proof cases
          case a: 1
          have "length s1 < length s" using Cons by simp
          with 1(1) a obtain w t where "y = (g, t)" "s1 = w @ t" "escaped_name w" by blast
          then have "y = (g, t) \<and> s = (c # w) @ t \<and> escaped_name (c # w)"
            using Cons ndq False en_plain by simp
          then show ?thesis by blast
        next
          case 2
          then show ?thesis using here by simp
        qed
      next
        case True
        show ?thesis
        proof (cases s1)
          case Nil
          then show ?thesis using 1(2) here Cons True by (simp add: ms_name_bs1)
        next
          case c2: (Cons c2 s2)
          from 1(2) consider "y \<in> set (ms (Star NAME_UNIT) (g, s2))" | "y = (g, s)"
            unfolding Cons c2 True by (auto simp: ms_name_bs2)
          then show ?thesis
          proof cases
            case a: 1
            have "length s2 < length s" using Cons c2 by simp
            with 1(1) a obtain w t where "y = (g, t)" "s2 = w @ t" "escaped_name w" by blast
            then have "y = (g, t) \<and> s = (bs # c2 # w) @ t \<and> escaped_name (bs # c2 # w)"
              using Cons c2 True en_pair by simp
            then show ?thesis by blast
          next
            case 2
            then show ?thesis using here by simp
          qed
        qed
      qed
    qed
  qed
qed

lemma in_Group:
  "(y \<in> set (ms (Group n p) (g, s)))
   = (\<exists>g' t. (g', t) \<in> set (ms p (g, s)) \<and> y = (g'(n \<mapsto> take (length s - length t) s), t))"
proof -
  have "set (ms (Group n p) (g, s))
        = (\<lambda>(g', t). (g'(n \<mapsto> take (length s - length t) s), t)) ` set (ms p (g, s))"
    by simp
  then show ?thesis by (auto simp: image_iff split: prod.splits)
qed

lemma field_re_sound:
  assumes "y \<in> set (ms FIELD_RE (g, s))"
  shows "\<exists>ws1 ws2 raw ws3 tail t.
           s = ''(field'' @ ws1 @ ''(name'' @ ws2 @ [dq] @ raw @ [dq] @ '')'' @ ws3 @ tail @ '')'' @ t
           \<and> ws1 \<noteq> [] \<and> list_all is_space ws1 \<and> ws2 \<noteq> [] \<and> list_all is_space ws2
           \<and> escaped_name raw \<and> list_all is_space ws3 \<and> CHR '')'' \<notin> set tail
           \<and> y = (g(1 \<mapsto> raw, 2 \<mapsto> tail), t)"
proof -
  from assms obtain x1 x2 x3 x4 x5 x6 x7 x8 x9 where
    m1: "x1 \<in> set (ms (Lit ''(field'') (g, s))" and
    m2: "x2 \<in> set (ms (Plus (Atom Space)) x1)" and
    m3: "x3 \<in> set (ms (Lit ''(name'') x2)" and
    m4: "x4 \<in> set (ms (Plus (Atom Space)) x3)" and
    m5: "x5 \<in> set (ms (Lit [dq]) x4)" and
    m6: "x6 \<in> set (ms (Group 1 (Star NAME_UNIT)) x5)" and
    m7: "x7 \<in> set (ms (Lit [dq, CHR '')'']) x6)" and
    m8: "x8 \<in> set (ms (Star (Atom Space)) x7)" and
    m9: "x9 \<in> set (ms (Group 2 (Star (Atom (NoneOf '')'')))) x8)" and
    m10: "y \<in> set (ms (Lit '')'') x9)"
    unfolding FIELD_RE_def in_Seq by blast
  from m1 obtain s1 where x1: "x1 = (g, s1)" and s: "s = ''(field'' @ s1"
    unfolding in_Lit by blast
  from m2 obtain ws1 s2 where x2: "x2 = (g, s2)" and s1: "s1 = ws1 @ s2"
    and ws1: "ws1 \<noteq> []" "list_all is_space ws1"
    unfolding x1 in_Plus_Atom atom_ok_Space by blast
  from m3 obtain s3 where x3: "x3 = (g, s3)" and s2: "s2 = ''(name'' @ s3"
    unfolding x2 in_Lit by blast
  from m4 obtain ws2 s4 where x4: "x4 = (g, s4)" and s3: "s3 = ws2 @ s4"
    and ws2: "ws2 \<noteq> []" "list_all is_space ws2"
    unfolding x3 in_Plus_Atom atom_ok_Space by blast
  from m5 obtain s5 where x5: "x5 = (g, s5)" and s4: "s4 = [dq] @ s5"
    unfolding x4 in_Lit by blast
  from m6 obtain g' s6 where n6: "(g', s6) \<in> set (ms (Star NAME_UNIT) (g, s5))"
    and x6': "x6 = (g'(1 \<mapsto> take (length s5 - length s6) s5), s6)"
    unfolding x5 in_Group by blast
  from name_star_sound [OF n6] obtain raw where g': "g' = g" and s5: "s5 = raw @ s6"
    and raw: "escaped_name raw" by auto
  have x6: "x6 = (g(1 \<mapsto> raw), s6)" using x6' g' s5 by simp
  from m7 obtain s7 where x7: "x7 = (g(1 \<mapsto> raw), s7)" and s6: "s6 = [dq, CHR '')''] @ s7"
    unfolding x6 in_Lit by blast
  from m8 obtain ws3 s8 where x8: "x8 = (g(1 \<mapsto> raw), s8)" and s7: "s7 = ws3 @ s8"
    and ws3: "list_all is_space ws3"
    unfolding x7 in_Star_Atom atom_ok_Space by blast
  from m9 obtain g'' s9 where
    n9: "(g'', s9) \<in> set (ms (Star (Atom (NoneOf '')''))) (g(1 \<mapsto> raw), s8))"
    and x9': "x9 = (g''(2 \<mapsto> take (length s8 - length s9) s8), s9)"
    unfolding x8 in_Group by blast
  from n9 obtain tail where g'': "g'' = g(1 \<mapsto> raw)" and s8: "s8 = tail @ s9"
    and tail: "list_all (atom_ok (NoneOf '')'')) tail"
    unfolding in_Star_Atom by blast
  have x9: "x9 = (g(1 \<mapsto> raw, 2 \<mapsto> tail), s9)" using x9' g'' s8 by simp
  from m10 obtain t where yt: "y = (g(1 \<mapsto> raw, 2 \<mapsto> tail), t)" and s9: "s9 = '')'' @ t"
    unfolding x9 in_Lit by blast
  have notin: "CHR '')'' \<notin> set tail" using tail by (auto simp: list_all_iff)
  have "s = ''(field'' @ ws1 @ ''(name'' @ ws2 @ [dq] @ raw @ [dq] @ '')'' @ ws3 @ tail @ '')'' @ t"
    unfolding s s1 s2 s3 s4 s5 s6 s7 s8 s9 by simp
  with ws1 ws2 raw ws3 notin yt show ?thesis by blast
qed

lemma field_re_complete:
  assumes "ws1 \<noteq> []" "list_all is_space ws1" "ws2 \<noteq> []" "list_all is_space ws2"
    "escaped_name raw" "list_all is_space ws3" "CHR '')'' \<notin> set tail"
  shows "(g(1 \<mapsto> raw, 2 \<mapsto> tail), t)
         \<in> set (ms FIELD_RE (g, ''(field'' @ ws1 @ ''(name'' @ ws2 @ [dq] @ raw @ [dq] @ '')''
                                 @ ws3 @ tail @ '')'' @ t))"
proof -
  let ?g1 = "g(1 \<mapsto> raw)"
  let ?g2 = "?g1(2 \<mapsto> tail)"
  let ?s9 = "'')'' @ t"
  let ?s8 = "tail @ ?s9"
  let ?s7 = "ws3 @ ?s8"
  let ?s6 = "[dq, CHR '')''] @ ?s7"
  let ?s5 = "raw @ ?s6"
  let ?s4 = "[dq] @ ?s5"
  let ?s3 = "ws2 @ ?s4"
  let ?s2 = "''(name'' @ ?s3"
  let ?s1 = "ws1 @ ?s2"
  let ?s0 = "''(field'' @ ?s1"
  have m1: "(g, ?s1) \<in> set (ms (Lit ''(field'') (g, ?s0))" unfolding in_Lit by blast
  have m2: "(g, ?s2) \<in> set (ms (Plus (Atom Space)) (g, ?s1))"
    unfolding in_Plus_Atom atom_ok_Space using assms(1,2) by blast
  have m3: "(g, ?s3) \<in> set (ms (Lit ''(name'') (g, ?s2))" unfolding in_Lit by blast
  have m4: "(g, ?s4) \<in> set (ms (Plus (Atom Space)) (g, ?s3))"
    unfolding in_Plus_Atom atom_ok_Space using assms(3,4) by blast
  have m5: "(g, ?s5) \<in> set (ms (Lit [dq]) (g, ?s4))" unfolding in_Lit by blast
  have "(g, ?s6) \<in> set (ms (Star NAME_UNIT) (g, ?s5))"
    by (rule name_star_complete [OF assms(5)])
  moreover have "take (length ?s5 - length ?s6) ?s5 = raw" by simp
  ultimately have m6: "(?g1, ?s6) \<in> set (ms (Group 1 (Star NAME_UNIT)) (g, ?s5))"
    unfolding in_Group by metis
  have m7: "(?g1, ?s7) \<in> set (ms (Lit [dq, CHR '')'']) (?g1, ?s6))" unfolding in_Lit by blast
  have m8: "(?g1, ?s8) \<in> set (ms (Star (Atom Space)) (?g1, ?s7))"
    unfolding in_Star_Atom atom_ok_Space using assms(6) by blast
  have "list_all (atom_ok (NoneOf '')'')) tail" using assms(7) by (auto simp: list_all_iff)
  then have "(?g1, ?s9) \<in> set (ms (Star (Atom (NoneOf '')''))) (?g1, ?s8))"
    unfolding in_Star_Atom by blast
  moreover have "take (length ?s8 - length ?s9) ?s8 = tail" by simp
  ultimately have m9: "(?g2, ?s9) \<in> set (ms (Group 2 (Star (Atom (NoneOf '')'')))) (?g1, ?s8))"
    unfolding in_Group by metis
  have m10: "(?g2, t) \<in> set (ms (Lit '')'') (?g2, ?s9))" unfolding in_Lit by blast
  have "(?g2, t) \<in> set (ms FIELD_RE (g, ?s0))"
    unfolding FIELD_RE_def in_Seq using m1 m2 m3 m4 m5 m6 m7 m8 m9 m10 by blast
  then show ?thesis by simp
qed

lemma field_re_wf:
  "(g', t) \<in> set (ms FIELD_RE (g, s)) \<Longrightarrow>
   \<exists>w raw tail. s = w @ t \<and> well_formed_record w \<and> escaped_name raw
      \<and> CHR '')'' \<notin> set tail \<and> g' = g(1 \<mapsto> raw, 2 \<mapsto> tail)"
proof -
  assume "(g', t) \<in> set (ms FIELD_RE (g, s))"
  from field_re_sound [OF this] obtain ws1 ws2 raw ws3 tail where
    s: "s = ''(field'' @ ws1 @ ''(name'' @ ws2 @ [dq] @ raw @ [dq] @ '')'' @ ws3 @ tail @ '')'' @ t"
    and c: "ws1 \<noteq> []" "list_all is_space ws1" "ws2 \<noteq> []" "list_all is_space ws2"
      "escaped_name raw" "list_all is_space ws3" "CHR '')'' \<notin> set tail"
    and g': "g' = g(1 \<mapsto> raw, 2 \<mapsto> tail)"
    by auto
  let ?w = "''(field'' @ ws1 @ ''(name'' @ ws2 @ [dq] @ raw @ [dq] @ '')'' @ ws3 @ tail @ '')''"
  have "well_formed_record ?w" unfolding well_formed_record_def using c by blast
  moreover have "s = ?w @ t" using s by simp
  ultimately show ?thesis using c(5,7) g' by blast
qed

lemma wf_matches:
  "well_formed_record w \<Longrightarrow> ms FIELD_RE (g, w @ t) \<noteq> []"
proof -
  assume "well_formed_record w"
  then obtain ws1 ws2 raw ws3 tail where
    w: "w = ''(field'' @ ws1 @ ''(name'' @ ws2 @ [dq] @ raw @ [dq] @ '')'' @ ws3 @ tail @ '')''"
    and c: "ws1 \<noteq> []" "list_all is_space ws1" "ws2 \<noteq> []" "list_all is_space ws2"
      "escaped_name raw" "list_all is_space ws3" "CHR '')'' \<notin> set tail"
    unfolding well_formed_record_def by blast
  from field_re_complete [OF c, of g t] show ?thesis unfolding w by auto
qed

lemma wf_nonempty: "well_formed_record w \<Longrightarrow> w \<noteq> []"
  unfolding well_formed_record_def by auto

lemma finditer_hit:
  assumes "ms FIELD_RE (Map.empty, s) = (g, t) # other"
  shows "finditer FIELD_RE s = g # finditer FIELD_RE t" and "length t < length s"
proof -
  have "(g, t) \<in> set (ms FIELD_RE (Map.empty, s))" using assms by simp
  from field_re_wf [OF this] obtain w where "s = w @ t" "well_formed_record w" by blast
  then show len: "length t < length s" using wf_nonempty by fastforce
  show "finditer FIELD_RE s = g # finditer FIELD_RE t"
    using assms len by (subst finditer.simps) simp
qed

lemma finditer_miss:
  assumes "ms FIELD_RE (Map.empty, s) = []"
  shows "finditer FIELD_RE s = (case s of [] \<Rightarrow> [] | c # s' \<Rightarrow> finditer FIELD_RE s')"
  using assms by (subst finditer.simps) simp

lemma finditer_groups:
  "m \<in> set (finditer FIELD_RE s) \<Longrightarrow>
   \<exists>raw tail. m = [1 \<mapsto> raw, 2 \<mapsto> tail] \<and> escaped_name raw \<and> CHR '')'' \<notin> set tail"
proof (induction s rule: length_induct)
  case (1 s)
  show ?case
  proof (cases "ms FIELD_RE (Map.empty, s)")
    case Nil
    show ?thesis
    proof (cases s)
      case Nil
      then show ?thesis using 1(2) finditer_miss [OF \<open>ms FIELD_RE (Map.empty, s) = []\<close>] by simp
    next
      case (Cons c s')
      then have "m \<in> set (finditer FIELD_RE s')"
        using 1(2) finditer_miss [OF Nil] by simp
      moreover have "length s' < length s" using Cons by simp
      ultimately show ?thesis using 1(1) by blast
    qed
  next
    case (Cons x other)
    obtain g t where x: "x = (g, t)" by (cases x)
    have hit: "ms FIELD_RE (Map.empty, s) = (g, t) # other" using Cons x by simp
    from 1(2) finditer_hit(1) [OF hit] consider "m = g" | "m \<in> set (finditer FIELD_RE t)"
      by auto
    then show ?thesis
    proof cases
      case a: 1
      have "(g, t) \<in> set (ms FIELD_RE (Map.empty, s))" using hit by simp
      from field_re_wf [OF this] a show ?thesis by blast
    next
      case 2
      then show ?thesis using 1(1) finditer_hit(2) [OF hit] by blast
    qed
  qed
qed

lemma finditer_found:
  "well_formed_record w \<Longrightarrow> finditer FIELD_RE (pre @ w @ post) \<noteq> []"
proof (induction pre)
  case Nil
  from wf_matches [OF Nil, of Map.empty post]
  obtain x other where "ms FIELD_RE (Map.empty, w @ post) = x # other"
    by (cases "ms FIELD_RE (Map.empty, w @ post)") auto
  then have "ms FIELD_RE (Map.empty, w @ post) = (fst x, snd x) # other" by simp
  from finditer_hit(1) [OF this] show ?case by simp
next
  case (Cons c pre)
  show ?case
  proof (cases "ms FIELD_RE (Map.empty, (c # pre) @ w @ post)")
    case Nil
    from finditer_miss [OF Nil] Cons show ?thesis by simp
  next
    case c2: (Cons x other)
    then have "ms FIELD_RE (Map.empty, (c # pre) @ w @ post) = (fst x, snd x) # other" by simp
    from finditer_hit(1) [OF this] show ?thesis by simp
  qed
qed

lemma finditer_nonempty:
  "finditer FIELD_RE s \<noteq> [] \<Longrightarrow> \<exists>pre w post. s = pre @ w @ post \<and> well_formed_record w"
proof (induction s)
  case Nil
  have "ms FIELD_RE (Map.empty, []) = []" by (simp add: FIELD_RE_def)
  from finditer_miss [OF this] Nil show ?case by simp
next
  case (Cons c s)
  show ?case
  proof (cases "ms FIELD_RE (Map.empty, c # s)")
    case Nil
    from finditer_miss [OF Nil] Cons.prems have "finditer FIELD_RE s \<noteq> []" by simp
    from Cons.IH [OF this] obtain pre w post where "s = pre @ w @ post" "well_formed_record w"
      by blast
    then have "c # s = (c # pre) @ w @ post \<and> well_formed_record w" by simp
    then show ?thesis by blast
  next
    case c2: (Cons x other)
    then have "(fst x, snd x) \<in> set (ms FIELD_RE (Map.empty, c # s))" by simp
    from field_re_wf [OF this] obtain w where "c # s = w @ snd x" "well_formed_record w"
      by blast
    then have "c # s = [] @ w @ snd x \<and> well_formed_record w" by simp
    then show ?thesis by blast
  qed
qed

lemma collect_ok:
  "\<forall>m \<in> set gs. \<exists>raw tail. m = [1 \<mapsto> raw, 2 \<mapsto> tail] \<and> P tail \<Longrightarrow>
   \<exists>items. collect gs = Inr items \<and> length items = length gs \<and> list_all (\<lambda>it. P (suffix it)) items"
proof (induction gs)
  case Nil
  show ?case by simp
next
  case (Cons m gs)
  have "\<forall>m \<in> set gs. \<exists>raw tail. m = [1 \<mapsto> raw, 2 \<mapsto> tail] \<and> P tail"
    using Cons.prems by (meson list.set_intros(2))
  from Cons.IH [OF this] obtain items where items: "collect gs = Inr items"
    "length items = length gs" "list_all (\<lambda>it. P (suffix it)) items" by blast
  obtain raw tail where m: "m = [1 \<mapsto> raw, 2 \<mapsto> tail]" and P: "P tail"
    using Cons.prems by (meson list.set_intros(1))
  have "collect (m # gs) = Inr (FieldItem_init (unescape raw) tail # items)"
    unfolding m using items(1) by simp
  then show ?case using items P by (simp add: FieldItem_init_def)
qed

lemma parse_ok:
  "\<exists>items. parse_field_names_sexpr x = Inr items
     \<and> list_all (\<lambda>it. CHR '')'' \<notin> set (suffix it)) items
     \<and> length items = length (finditer FIELD_RE (case x of None \<Rightarrow> [] | Some s \<Rightarrow> s))"
proof -
  let ?s = "case x of None \<Rightarrow> [] | Some s \<Rightarrow> s"
  have "\<forall>m \<in> set (finditer FIELD_RE ?s). \<exists>raw tail. m = [1 \<mapsto> raw, 2 \<mapsto> tail] \<and> CHR '')'' \<notin> set tail"
    using finditer_groups by blast
  from collect_ok [where P = "\<lambda>tail. CHR '')'' \<notin> set tail", OF this]
  show ?thesis unfolding parse_field_names_sexpr_def by blast
qed

section \<open>Parsing a serialized sequence\<close>

lemma collect_groups_of:
  "collect (groups_of raw tail # gs)
   = (case collect gs of Inl e \<Rightarrow> Inl e
      | Inr items \<Rightarrow> Inr (FieldItem_init (unescape raw) tail # items))"
  by (simp add: groups_of_def split: sum.splits)

lemma ms_needs_prefix: "ms FIELD_RE (g, s) \<noteq> [] \<Longrightarrow> \<exists>t. s = ''(field'' @ t"
proof -
  assume "ms FIELD_RE (g, s) \<noteq> []"
  then obtain y where "y \<in> set (ms FIELD_RE (g, s))"
    by (cases "ms FIELD_RE (g, s)") auto
  from field_re_sound [OF this] show ?thesis by auto
qed

lemma skip_other: "c \<noteq> CHR ''('' \<Longrightarrow> finditer FIELD_RE (c # s) = finditer FIELD_RE s"
proof -
  assume c: "c \<noteq> CHR ''(''"
  have "ms FIELD_RE (Map.empty, c # s) = []"
    using ms_needs_prefix [of Map.empty "c # s"] c by auto
  from finditer_miss [OF this] show ?thesis by simp
qed

lemma skip_paren:
  "c \<noteq> CHR ''f'' \<Longrightarrow> finditer FIELD_RE (CHR ''('' # c # s) = finditer FIELD_RE (c # s)"
proof -
  assume c: "c \<noteq> CHR ''f''"
  have "ms FIELD_RE (Map.empty, CHR ''('' # c # s) = []"
    using ms_needs_prefix [of Map.empty "CHR ''('' # c # s"] c by auto
  from finditer_miss [OF this] show ?thesis by simp
qed

lemma finditer_Nil: "finditer FIELD_RE [] = []"
proof -
  have "ms FIELD_RE (Map.empty, []) = []"
    using ms_needs_prefix [of Map.empty "[]"] by auto
  from finditer_miss [OF this] show ?thesis by simp
qed

lemma skip_templatefields:
  "finditer FIELD_RE (''(templatefields'' @ r) = finditer FIELD_RE r"
  by (simp add: skip_other skip_paren)

lemma finditer_close: "finditer FIELD_RE '')'' = []"
  by (simp add: skip_other finditer_Nil)

lemma finditer_records:
  "list_all (\<lambda>it. CHR '')'' \<notin> set (suffix it)) items \<Longrightarrow>
   finditer FIELD_RE (concat (map with_suffix_inside items) @ '')'')
   = map (\<lambda>it. groups_of (escape (name it)) (strip (suffix it))) items"
proof (induction items)
  case Nil
  show ?case using finditer_close by simp
next
  case (Cons it items)
  let ?rest = "concat (map with_suffix_inside items) @ '')''"
  have "CHR '')'' \<notin> set (suffix it)" using Cons.prems by simp
  from first_record [OF this, of Map.empty ?rest]
  have f: "first FIELD_RE (Map.empty, with_suffix_inside it @ ?rest)
           = Some (groups_of (escape (name it)) (strip (suffix it)), ?rest)"
    unfolding groups_of_def .
  have "length ?rest < length (with_suffix_inside it @ ?rest)"
    using with_suffix_inside_nonempty [of it] by simp
  from finditer_first [OF f this] Cons show ?case by simp
qed

lemma collect_records:
  "collect (map (\<lambda>it. groups_of (escape (name it)) (strip (suffix it))) items)
   = Inr (map normalized items)"
  by (induction items)
     (simp_all add: collect_groups_of normalized_def FieldItem_init_def unescape_escape_id
        del: collect.simps(2))

lemma parse_build:
  "list_all (\<lambda>it. CHR '')'' \<notin> set (suffix it)) items \<Longrightarrow>
   parse_field_names_sexpr (Some (build_field_names_sexpr items)) = Inr (map normalized items)"
  by (simp add: parse_field_names_sexpr_def build_field_names_sexpr_def skip_templatefields
      finditer_records collect_records del: append_Cons)

lemma reparse_eq:
  "\<exists>items. parse_field_names_sexpr x = Inr items \<and> reparse x = Inr (map normalized items)"
proof -
  from parse_ok [of x] obtain items where "parse_field_names_sexpr x = Inr items"
    "list_all (\<lambda>it. CHR '')'' \<notin> set (suffix it)) items" by blast
  then show ?thesis using parse_build by (simp add: reparse_def)
qed

section \<open>Lemmas on the list operations\<close>

lemma suffix_map_fold:
  "fold (\<lambda>it m. m(name it \<mapsto> suffix it)) items m0 n
   = (case filter (\<lambda>it. name it = n) items of [] \<Rightarrow> m0 n | x # xs \<Rightarrow> Some (suffix (last (x # xs))))"
proof (induction items arbitrary: m0)
  case Nil
  show ?case by simp
next
  case (Cons it items)
  show ?case
    unfolding fold_Cons comp_apply Cons.IH
    by (cases "filter (\<lambda>it. name it = n) items") auto
qed

lemma suffix_map_tail_of:
  "(case suffix_map items n of None \<Rightarrow> [] | Some t \<Rightarrow> t) = tail_of items n"
  unfolding suffix_map_def suffix_map_fold tail_of_def
  by (simp split: list.splits)

lemma removeAll_filter_notin:
  "removeAll s (filter (\<lambda>x. x \<notin> seen) xs) = filter (\<lambda>x. x \<notin> insert s seen) xs"
  by (induction xs) auto

lemma names_loop:
  "fold (\<lambda>n (acc, seen).
           case n of
             JStr s \<Rightarrow> if s \<notin> seen then (acc @ [f s], insert s seen) else (acc, seen)
           | _ \<Rightarrow> (acc, seen))
        names (acc, seen)
   = (acc @ map f (uniq (filter (\<lambda>x. x \<notin> seen) (json_strs names))),
      seen \<union> set (json_strs names))"
proof (induction names arbitrary: acc seen)
  case Nil
  show ?case by simp
next
  case (Cons n names)
  show ?case
  proof (cases n)
    case (JStr s)
    show ?thesis
      unfolding JStr fold_Cons comp_apply
      by (simp add: Cons.IH removeAll_filter_notin insert_absorb)
  qed (simp_all add: Cons.IH)
qed

lemma items_loop:
  "fold (\<lambda>it acc. if name it \<notin> seen then acc @ [it] else acc) items acc
   = acc @ filter (\<lambda>it. name it \<notin> seen) items"
  by (induction items arbitrary: acc) simp_all

lemma reorder_eq:
  "reorder names items
   = map (\<lambda>n. \<lparr>name = n, suffix = tail_of items n\<rparr>) (uniq (json_strs names))
     @ filter (\<lambda>it. name it \<notin> set (json_strs names)) items"
  unfolding reorder_def Let_def suffix_map_tail_of FieldItem_init_def
  by (simp add: names_loop items_loop)

lemma uniq_set: "set (uniq xs) = set xs"
  by (induction xs rule: uniq.induct) auto

lemma uniq_distinct: "distinct (uniq xs)"
  by (induction xs rule: uniq.induct) (auto simp: uniq_set)

lemma tail_of_absent: "n \<notin> name ` set items \<Longrightarrow> tail_of items n = []"
proof -
  assume "n \<notin> name ` set items"
  then have "filter (\<lambda>it. name it = n) items = []" by (auto simp: filter_empty_conv)
  then show ?thesis by (simp add: tail_of_def)
qed

lemma tail_of_present:
  "distinct (map name items) \<Longrightarrow> it \<in> set items \<Longrightarrow> tail_of items (name it) = suffix it"
proof (induction items)
  case Nil
  then show ?case by simp
next
  case (Cons x items)
  show ?case
  proof (cases "it = x")
    case True
    have nx: "name x \<notin> name ` set items" using Cons.prems(1) by simp
    have "\<forall>y \<in> set items. name y \<noteq> name x"
    proof
      fix y
      assume "y \<in> set items"
      then have "name y \<in> name ` set items" by (rule imageI)
      with nx show "name y \<noteq> name x" by auto
    qed
    then have "filter (\<lambda>y. name y = name x) items = []"
      by (simp add: filter_empty_conv)
    then show ?thesis using True by (simp add: tail_of_def)
  next
    case False
    then have mem: "it \<in> set items" using Cons.prems(2) by simp
    then have "name x \<noteq> name it" using Cons.prems(1) by auto
    then have "tail_of (x # items) (name it) = tail_of items (name it)"
      by (simp add: tail_of_def)
    then show ?thesis using Cons.IH mem Cons.prems(1) by simp
  qed
qed

lemma insert_name_eq:
  "insert_name nm items
   = (if nm \<noteq> [] \<and> nm \<notin> name ` set items then items @ [\<lparr>name = nm, suffix = []\<rparr>] else items)"
  by (auto simp: insert_name_def FieldItem_init_def list_all_iff)

lemma move_up_noop: "i = NOT_FOUND \<or> i = 0 \<Longrightarrow> move_up i items = Inr items"
  by (simp add: move_up_def)

lemma move_up_swap:
  "0 < i \<Longrightarrow> i < int (length items) \<Longrightarrow>
   move_up i items = Inr (items[nat i - 1 := items ! nat i, nat i := items ! (nat i - 1)])"
  by (simp add: move_up_def NOT_FOUND_def and_then_def py_get_def py_set_def py_index_def
      nat_diff_distrib)

lemma move_down_noop:
  "i = NOT_FOUND \<or> int (length items) - 1 \<le> i \<Longrightarrow> move_down i items = Inr items"
  by (simp add: move_down_def)

lemma move_down_swap:
  "0 \<le> i \<Longrightarrow> i < int (length items) - 1 \<Longrightarrow>
   move_down i items = Inr (items[nat i + 1 := items ! nat i, nat i := items ! (nat i + 1)])"
  by (simp add: move_down_def NOT_FOUND_def and_then_def py_get_def py_set_def py_index_def
      nat_add_distrib)

lemma json_strs_map: "json_strs (map JStr ns) = ns"
  by (induction ns) simp_all

section \<open>The claims\<close>

text \<open>
  Claim C1, as stated, fails: a tail may hold a closing parenthesis, and the pattern ends
  the record at the first one. The record \<open>A\<close> with tail \<open>x)y\<close> comes back with tail \<open>x\<close>.
\<close>

theorem C1_counterexample:
  "parse_field_names_sexpr
     (Some (build_field_names_sexpr [\<lparr>name = ''A'', suffix = ''x)y''\<rparr>]))
   = Inr [\<lparr>name = ''A'', suffix = ''x''\<rparr>]
   \<and> (''A'', strip ''x'') \<noteq> (''A'', strip ''x)y'')"
  by code_simp

text \<open>
  Claim C1, amended. For every sequence whose tails hold no closing parenthesis, parsing
  the serialized sequence gives a sequence of the same length with the same names and
  the same stripped tails in the same order: the records themselves, each with its tail
  stripped.
\<close>

theorem C1_parse_build_amended:
  "list_all (\<lambda>it. CHR '')'' \<notin> set (suffix it)) S \<Longrightarrow>
   \<exists>R. parse_field_names_sexpr (Some (build_field_names_sexpr S)) = Inr R
       \<and> R = map normalized S
       \<and> length R = length S
       \<and> map (\<lambda>it. (name it, strip (suffix it))) R = map (\<lambda>it. (name it, strip (suffix it))) S"
  by (simp add: parse_build normalized_def strip_strip)

theorem C1_parse_build_witness:
  "list_all (\<lambda>it. CHR '')'' \<notin> set (suffix it))
     [\<lparr>name = ''MFR'', suffix = '' visible''\<rparr>, \<lparr>name = ''URL'', suffix = ''url ''\<rparr>]
   \<and> parse_field_names_sexpr (Some (build_field_names_sexpr
         [\<lparr>name = ''MFR'', suffix = '' visible''\<rparr>, \<lparr>name = ''URL'', suffix = ''url ''\<rparr>]))
       = Inr [\<lparr>name = ''MFR'', suffix = ''visible''\<rparr>, \<lparr>name = ''URL'', suffix = ''url''\<rparr>]"
proof -
  let ?S = "[\<lparr>name = ''MFR'', suffix = '' visible''\<rparr>, \<lparr>name = ''URL'', suffix = ''url ''\<rparr>]"
  have h: "list_all (\<lambda>it. CHR '')'' \<notin> set (suffix it)) ?S" by simp
  have n: "map normalized ?S
           = [\<lparr>name = ''MFR'', suffix = ''visible''\<rparr>, \<lparr>name = ''URL'', suffix = ''url''\<rparr>]"
    by code_simp
  from C1_parse_build_amended [OF h] n h show ?thesis by simp
qed

text \<open>
  Claim C2, as stated, fails: a parsed tail keeps its trailing whitespace, the serializer
  strips it, and the second parse yields the stripped tail.
\<close>

theorem C2_counterexample:
  "parse_field_names_sexpr (Some (''(templatefields (field (name '' @ [dq] @ ''A'' @ [dq] @ '') v ))''))
   = Inr [\<lparr>name = ''A'', suffix = ''v ''\<rparr>]
   \<and> reparse (Some (''(templatefields (field (name '' @ [dq] @ ''A'' @ [dq] @ '') v ))''))
   = Inr [\<lparr>name = ''A'', suffix = ''v''\<rparr>]"
  by code_simp

text \<open>
  Claim C2, amended. For every text (or none), parsing, serializing and parsing again
  gives as many records as the first parse, with the same names, and with each tail equal to
  the stripped tail of the first parse.
\<close>

theorem C2_reparse_amended:
  "\<exists>items items'. parse_field_names_sexpr x = Inr items \<and> reparse x = Inr items'
      \<and> length items' = length items
      \<and> map name items' = map name items
      \<and> map suffix items' = map (\<lambda>it. strip (suffix it)) items"
proof -
  from reparse_eq [of x] obtain items where
    "parse_field_names_sexpr x = Inr items" "reparse x = Inr (map normalized items)" by blast
  moreover have "map name (map normalized items) = map name items"
    by (simp add: normalized_def)
  moreover have "map suffix (map normalized items) = map (\<lambda>it. strip (suffix it)) items"
    by (simp add: normalized_def)
  ultimately show ?thesis by (metis length_map)
qed

theorem C2_reparse_witness:
  "map suffix (projr (reparse (Some (''(field (name '' @ [dq] @ ''A'' @ [dq] @ '') v  w  )''))))
   = [''v  w'']"
proof -
  let ?x = "Some (''(field (name '' @ [dq] @ ''A'' @ [dq] @ '') v  w  )'')"
  have p: "parse_field_names_sexpr ?x = Inr [\<lparr>name = ''A'', suffix = ''v  w  ''\<rparr>]"
    by code_simp
  have s: "strip ''v  w  '' = ''v  w''" by code_simp
  from C2_reparse_amended [of ?x] p s show ?thesis by auto
qed

text \<open>
  Claim C3. For every name, whatever quotes and backslashes it holds and in whatever order,
  unescaping the escaped name gives the name back.
\<close>

theorem C3_unescape_escape: "unescape (escape s) = s"
  by (rule unescape_escape_id)

text \<open>
  Claim C4. The import puts first one record for each distinct imported name, in the order
  of the first occurrences; such a record carries the tail the name has in the current
  sequence, the empty tail if the name is not there. Then come the current records whose
  name is not imported, in their order. Later occurrences of a name are ignored, and so
  are values that are not strings.
\<close>

theorem C4_reorder_by_names:
  "reorder names items
   = map (\<lambda>n. \<lparr>name = n, suffix = tail_of items n\<rparr>) (uniq (json_strs names))
     @ filter (\<lambda>it. name it \<notin> set (json_strs names)) items
   \<and> json_strs (map JStr ns) = ns
   \<and> distinct (uniq ns) \<and> set (uniq ns) = set ns
   \<and> (n \<notin> name ` set items \<longrightarrow> tail_of items n = [])
   \<and> (distinct (map name items) \<and> it \<in> set items \<longrightarrow> tail_of items (name it) = suffix it)
   \<and> on_import (JDict [(''fields'', JList names)]) items = Inr (reorder names items)"
proof -
  have "on_import (JDict [(''fields'', JList names)]) items = Inr (reorder names items)"
    by (simp add: on_import_def)
  then show ?thesis
    using reorder_eq json_strs_map uniq_distinct uniq_set tail_of_absent tail_of_present
    by blast
qed

theorem C4_reorder_by_names_witness:
  "reorder [JStr ''B'', JStr ''A'', JStr ''B'']
     [\<lparr>name = ''A'', suffix = ''visible''\<rparr>, \<lparr>name = ''B'', suffix = ''''\<rparr>]
   = [\<lparr>name = ''B'', suffix = ''''\<rparr>, \<lparr>name = ''A'', suffix = ''visible''\<rparr>]
   \<and> reorder [JStr ''C'']
     [\<lparr>name = ''A'', suffix = ''visible''\<rparr>, \<lparr>name = ''B'', suffix = ''''\<rparr>]
   = [\<lparr>name = ''C'', suffix = ''''\<rparr>, \<lparr>name = ''A'', suffix = ''visible''\<rparr>,
      \<lparr>name = ''B'', suffix = ''''\<rparr>]
   \<and> tail_of [\<lparr>name = ''A'', suffix = ''visible''\<rparr>, \<lparr>name = ''B'', suffix = ''''\<rparr>] ''C'' = []
   \<and> tail_of [\<lparr>name = ''A'', suffix = ''visible''\<rparr>, \<lparr>name = ''B'', suffix = ''''\<rparr>] ''A''
     = ''visible''"
proof -
  let ?A = "\<lparr>name = ''A'', suffix = ''visible''\<rparr>"
  let ?B = "\<lparr>name = ''B'', suffix = ''''\<rparr>"
  have d: "distinct (map name [?A, ?B]) \<and> ?A \<in> set [?A, ?B]" by simp
  have c: "''C'' \<notin> name ` set [?A, ?B]" by simp
  have t: "tail_of [?A, ?B] ''B'' = []" by (simp add: tail_of_def)
  note th1 = C4_reorder_by_names [of "[JStr ''B'', JStr ''A'', JStr ''B'']" "[?A, ?B]" "[]" "''C''" ?A]
  note th2 = C4_reorder_by_names [of "[JStr ''C'']" "[?A, ?B]" "[]" "''C''" ?A]
  have r1: "reorder [JStr ''B'', JStr ''A'', JStr ''B''] [?A, ?B] = [?B, ?A]"
    using th1 d c t by simp
  have r2: "reorder [JStr ''C''] [?A, ?B] = [\<lparr>name = ''C'', suffix = ''''\<rparr>, ?A, ?B]"
    using th2 d c by simp
  have t1: "tail_of [?A, ?B] ''C'' = []" using th1 c by blast
  have t2: "tail_of [?A, ?B] ''A'' = ''visible''" using th1 d by simp
  from r1 r2 t1 t2 show ?thesis by blast
qed



text \<open>
  Claim C6. On the example of the specification the parser yields the tails \<open>visible\<close> and
  \<open>url\<close>: the \<open>\s*\<close> before the second group takes the space after the name, so the
  tail does not start with it. The comments on \<open>FIELD_RE\<close> and on \<open>FieldItem\<close> give the
  tails with the leading space.
\<close>

theorem C6_parse_example:
  "parse_field_names_sexpr
     (Some (''(templatefields (field (name '' @ [dq] @ ''MFR'' @ [dq] @ '') visible) (field (name ''
            @ [dq] @ ''URL'' @ [dq] @ '') url))''))
   = Inr [\<lparr>name = ''MFR'', suffix = ''visible''\<rparr>, \<lparr>name = ''URL'', suffix = ''url''\<rparr>]"
  by code_simp

text \<open>
  Claim C7. The name is appended, with an empty tail, exactly when it is not empty and no
  record has it; otherwise the sequence stays as it is. \<open>on_add\<close> passes the entered text,
  stripped, as the name, and does nothing when the dialog is cancelled.
\<close>

theorem C7_insert_name:
  "insert_name nm items
   = (if nm \<noteq> [] \<and> nm \<notin> name ` set items
      then items @ [\<lparr>name = nm, suffix = []\<rparr>] else items)
   \<and> on_add (Some v) items = insert_name (strip v) items
   \<and> on_add None items = items"
  by (simp add: insert_name_eq on_add_def)

text \<open>
  Claim C8. For every selection the list box can report, a move swaps the selected record
  with its neighbour in the given direction, and leaves the sequence unchanged when the
  index is 0 and the direction is up, when the index is the last one and the direction is
  down, and when the selection is no index of the sequence (\<open>NOT_FOUND\<close>). No move raises.
\<close>

theorem C8_move:
  "lb_selection i items \<Longrightarrow>
   move_up i items
   = Inr (if i = NOT_FOUND \<or> i = 0 then items
          else items[nat i - 1 := items ! nat i, nat i := items ! (nat i - 1)])
   \<and> move_down i items
     = Inr (if i = NOT_FOUND \<or> i = int (length items) - 1 then items
            else items[nat i + 1 := items ! nat i, nat i := items ! (nat i + 1)])"
proof -
  assume sel: "lb_selection i items"
  have up: "move_up i items
            = Inr (if i = NOT_FOUND \<or> i = 0 then items
                   else items[nat i - 1 := items ! nat i, nat i := items ! (nat i - 1)])"
  proof (cases "i = NOT_FOUND \<or> i = 0")
    case True
    then show ?thesis using move_up_noop [of i items] by simp
  next
    case False
    then have "0 < i" "i < int (length items)"
      using sel by (auto simp: lb_selection_def)
    then show ?thesis using False move_up_swap [of i items] by simp
  qed
  have down: "move_down i items
              = Inr (if i = NOT_FOUND \<or> i = int (length items) - 1 then items
                     else items[nat i + 1 := items ! nat i, nat i := items ! (nat i + 1)])"
  proof (cases "i = NOT_FOUND \<or> i = int (length items) - 1")
    case True
    then show ?thesis using move_down_noop [of i items] by auto
  next
    case False
    then have "0 \<le> i" "i < int (length items) - 1"
      using sel by (auto simp: lb_selection_def)
    then show ?thesis using False move_down_swap [of i items] by simp
  qed
  from up down show ?thesis by simp
qed

theorem C8_move_witness:
  "lb_selection 0 [\<lparr>name = ''A'', suffix = []\<rparr>, \<lparr>name = ''B'', suffix = []\<rparr>, \<lparr>name = ''C'', suffix = []\<rparr>]
   \<and> lb_selection 1 [\<lparr>name = ''A'', suffix = []\<rparr>, \<lparr>name = ''B'', suffix = []\<rparr>, \<lparr>name = ''C'', suffix = []\<rparr>]
   \<and> lb_selection 2 [\<lparr>name = ''A'', suffix = []\<rparr>, \<lparr>name = ''B'', suffix = []\<rparr>, \<lparr>name = ''C'', suffix = []\<rparr>]
   \<and> lb_selection NOT_FOUND [\<lparr>name = ''A'', suffix = []\<rparr>, \<lparr>name = ''B'', suffix = []\<rparr>, \<lparr>name = ''C'', suffix = []\<rparr>]
   \<and> move_up 0 [\<lparr>name = ''A'', suffix = []\<rparr>, \<lparr>name = ''B'', suffix = []\<rparr>, \<lparr>name = ''C'', suffix = []\<rparr>]
   = Inr [\<lparr>name = ''A'', suffix = []\<rparr>, \<lparr>name = ''B'', suffix = []\<rparr>, \<lparr>name = ''C'', suffix = []\<rparr>]
   \<and> move_up 1 [\<lparr>name = ''A'', suffix = []\<rparr>, \<lparr>name = ''B'', suffix = []\<rparr>, \<lparr>name = ''C'', suffix = []\<rparr>]
   = Inr [\<lparr>name = ''B'', suffix = []\<rparr>, \<lparr>name = ''A'', suffix = []\<rparr>, \<lparr>name = ''C'', suffix = []\<rparr>]
   \<and> move_down 2 [\<lparr>name = ''A'', suffix = []\<rparr>, \<lparr>name = ''B'', suffix = []\<rparr>, \<lparr>name = ''C'', suffix = []\<rparr>]
   = Inr [\<lparr>name = ''A'', suffix = []\<rparr>, \<lparr>name = ''B'', suffix = []\<rparr>, \<lparr>name = ''C'', suffix = []\<rparr>]
   \<and> move_up NOT_FOUND [\<lparr>name = ''A'', suffix = []\<rparr>, \<lparr>name = ''B'', suffix = []\<rparr>, \<lparr>name = ''C'', suffix = []\<rparr>]
   = Inr [\<lparr>name = ''A'', suffix = []\<rparr>, \<lparr>name = ''B'', suffix = []\<rparr>, \<lparr>name = ''C'', suffix = []\<rparr>]
   \<and> move_down NOT_FOUND [\<lparr>name = ''A'', suffix = []\<rparr>, \<lparr>name = ''B'', suffix = []\<rparr>, \<lparr>name = ''C'', suffix = []\<rparr>]
   = Inr [\<lparr>name = ''A'', suffix = []\<rparr>, \<lparr>name = ''B'', suffix = []\<rparr>, \<lparr>name = ''C'', suffix = []\<rparr>]
   \<and> move_down 1 [\<lparr>name = ''A'', suffix = []\<rparr>, \<lparr>name = ''B'', suffix = []\<rparr>, \<lparr>name = ''C'', suffix = []\<rparr>]
   = Inr [\<lparr>name = ''A'', suffix = []\<rparr>, \<lparr>name = ''C'', suffix = []\<rparr>, \<lparr>name = ''B'', suffix = []\<rparr>]"
proof -
  let ?X = "[\<lparr>name = ''A'', suffix = []\<rparr>, \<lparr>name = ''B'', suffix = []\<rparr>, \<lparr>name = ''C'', suffix = []\<rparr>]"
  have s0: "lb_selection 0 ?X" by (simp add: lb_selection_def)
  have s1: "lb_selection 1 ?X" by (simp add: lb_selection_def)
  have s2: "lb_selection 2 ?X" by (simp add: lb_selection_def)
  have sn: "lb_selection NOT_FOUND ?X" by (simp add: lb_selection_def)
  have a: "move_up 0 ?X = Inr ?X" using C8_move [OF s0] by simp
  have b: "move_up 1 ?X = Inr (?X[nat 1 - 1 := ?X ! nat 1, nat 1 := ?X ! (nat 1 - 1)])"
    using C8_move [OF s1] by (simp add: NOT_FOUND_def)
  have c: "move_down 2 ?X = Inr ?X" using C8_move [OF s2] by simp
  have d: "move_up NOT_FOUND ?X = Inr ?X \<and> move_down NOT_FOUND ?X = Inr ?X"
    using C8_move [OF sn] by simp
  have e: "move_down 1 ?X = Inr (?X[nat 1 + 1 := ?X ! nat 1, nat 1 := ?X ! (nat 1 + 1)])"
    using C8_move [OF s1] by (simp add: NOT_FOUND_def)
  from s0 s1 s2 sn a b c d e show ?thesis by simp
qed

text \<open>
  Claim C9. The parser raises on no input: it returns a list for every text and for
  \<open>None\<close>. The list is empty for \<open>None\<close> and for the empty text, and for a text it is
  empty exactly when no part of the text is a well-formed record.
\<close>

theorem C9_parse_never_raises:
  "(\<exists>items. parse_field_names_sexpr x = Inr items)
   \<and> parse_field_names_sexpr None = Inr []
   \<and> parse_field_names_sexpr (Some []) = Inr []
   \<and> ((parse_field_names_sexpr (Some t) = Inr [])
        = (\<not> (\<exists>pre w post. t = pre @ w @ post \<and> well_formed_record w)))"
proof -
  have a: "\<exists>items. parse_field_names_sexpr x = Inr items" using parse_ok [of x] by blast
  have b: "parse_field_names_sexpr None = Inr []"
    by (simp add: parse_field_names_sexpr_def finditer_Nil)
  have c: "parse_field_names_sexpr (Some []) = Inr []"
    by (simp add: parse_field_names_sexpr_def finditer_Nil)
  from parse_ok [of "Some t"] obtain items where
    items: "parse_field_names_sexpr (Some t) = Inr items"
    "length items = length (finditer FIELD_RE t)" by auto
  have "(parse_field_names_sexpr (Some t) = Inr []) = (finditer FIELD_RE t = [])"
    using items by auto
  also have "\<dots> = (\<not> (\<exists>pre w post. t = pre @ w @ post \<and> well_formed_record w))"
    using finditer_found finditer_nonempty by blast
  finally show ?thesis using a b c by blast
qed

theorem C9_parse_never_raises_witness:
  "parse_field_names_sexpr (Some ''(templatefields (field (name MFR) visible))'') = Inr []
   \<and> \<not> (\<exists>pre w post. ''(templatefields (field (name MFR) visible))'' = pre @ w @ post
                       \<and> well_formed_record w)"
proof -
  have e: "parse_field_names_sexpr (Some ''(templatefields (field (name MFR) visible))'') = Inr []"
    by code_simp
  from C9_parse_never_raises [of None "''(templatefields (field (name MFR) visible))''"] e
  show ?thesis by blast
qed

text \<open>
  Claim C10. No tail of a parsed record holds a closing parenthesis. A record built by
  the constructor may hold one.
\<close>

theorem C10_parsed_tails:
  "(\<exists>items. parse_field_names_sexpr x = Inr items
        \<and> list_all (\<lambda>it. CHR '')'' \<notin> set (suffix it)) items)
   \<and> CHR '')'' \<in> set (suffix (FieldItem_init n ''a)b''))"
  using parse_ok [of x] by (auto simp: FieldItem_init_def)

end
